theory Spec2Isabelle
  imports Main "HOL-Library.Sublist"
begin

section \<open>The document model of change.go\<close>

text \<open>
  The XES document as the Go structs have it. Go strings are byte strings, so a key or a
  value is a \<^typ>\<open>string\<close> (a list of 8-bit characters). The two attribute structs and the
  two \<open>StringAttributes\<close> fields share their field names, as in the source; they are told
  apart by the record's name.
\<close>

record StringAttribute =
  Key :: string
  Value :: string

record DateAttribute =
  Key :: string
  Value :: string

record Event =
  StringAttributes :: "StringAttribute list"
  DateAttributes :: "DateAttribute list"

record Trace =
  Events :: "Event list"
  StringAttributes :: "StringAttribute list"

text \<open>\<open>XMLName\<close> is the pair (Space, Local) of \<open>xml.Name\<close>; no function reads it.\<close>

record XES =
  XMLName :: "string \<times> string"
  Traces :: "Trace list"

text \<open>
  \<open>setAttributeValue\<close> takes an \<open>interface{}\<close> and switches on its dynamic type. The two
  cases of the switch are constructors; every other dynamic type is \<open>OtherValue\<close>, for
  which the switch has no case.
\<close>

datatype attr = AString StringAttribute | ADate DateAttribute | OtherValue

section \<open>The library functions the code calls\<close>

subsection \<open>strings.TrimSpace\<close>

text \<open>
  \<open>strings.TrimSpace\<close> removes all leading and trailing white space, as defined by Unicode
  (\<open>unicode.IsSpace\<close>): U+0009 to U+000D, U+0020, U+0085, U+00A0, U+1680, U+2000 to U+200A,
  U+2028, U+2029, U+202F, U+205F and U+3000. On the bytes of a Go string these runes are
  the following UTF-8 encodings. A byte that starts no valid encoding decodes to
  U+FFFD, which is not white space, so trimming stops there.
\<close>

definition spaceRunes :: "string list" where
  "spaceRunes =
     [[CHR 0x09], [CHR 0x0A], [CHR 0x0B], [CHR 0x0C], [CHR 0x0D], [CHR 0x20],
      [CHR 0xC2, CHR 0x85], [CHR 0xC2, CHR 0xA0],
      [CHR 0xE1, CHR 0x9A, CHR 0x80],
      [CHR 0xE2, CHR 0x80, CHR 0x80], [CHR 0xE2, CHR 0x80, CHR 0x81],
      [CHR 0xE2, CHR 0x80, CHR 0x82], [CHR 0xE2, CHR 0x80, CHR 0x83],
      [CHR 0xE2, CHR 0x80, CHR 0x84], [CHR 0xE2, CHR 0x80, CHR 0x85],
      [CHR 0xE2, CHR 0x80, CHR 0x86], [CHR 0xE2, CHR 0x80, CHR 0x87],
      [CHR 0xE2, CHR 0x80, CHR 0x88], [CHR 0xE2, CHR 0x80, CHR 0x89],
      [CHR 0xE2, CHR 0x80, CHR 0x8A],
      [CHR 0xE2, CHR 0x80, CHR 0xA8], [CHR 0xE2, CHR 0x80, CHR 0xA9],
      [CHR 0xE2, CHR 0x80, CHR 0xAF],
      [CHR 0xE2, CHR 0x81, CHR 0x9F],
      [CHR 0xE3, CHR 0x80, CHR 0x80]]"

text \<open>
  \<open>leadingRune rs s\<close> is the first of the byte sequences \<open>rs\<close> that \<open>s\<close> starts with.
  \<open>trimRunes rs s\<close> drops such sequences from the front of \<open>s\<close> until none is left.
\<close>

definition leadingRune :: "string list \<Rightarrow> string \<Rightarrow> string option" where
  "leadingRune rs s = find (\<lambda>r. r \<noteq> [] \<and> prefix r s) rs"

function trimRunes :: "string list \<Rightarrow> string \<Rightarrow> string" where
  "trimRunes rs s =
     (case leadingRune rs s of
        None \<Rightarrow> s
      | Some r \<Rightarrow> trimRunes rs (drop (length r) s))"
  by pat_completeness auto
termination
proof (relation "measure (\<lambda>(rs, s). length s)")
  show "wf (measure (\<lambda>(rs, s). length s))"
    by simp
next
  fix rs :: "string list" and s r :: string
  assume "leadingRune rs s = Some r"
  then have "r \<noteq> [] \<and> prefix r s"
    unfolding leadingRune_def by (auto dest: find_Some_iff [THEN iffD1])
  then have "0 < length r" and "length r \<le> length s"
    by (auto simp: prefix_length_le)
  then have "length s - length r < length s"
    by arith
  then show "((rs, drop (length r) s), (rs, s)) \<in> measure (\<lambda>(rs, s). length s)"
    by simp
qed

declare trimRunes.simps [simp del]

definition TrimLeftSpace :: "string \<Rightarrow> string" where
  "TrimLeftSpace s = trimRunes spaceRunes s"

text \<open>The trailing runes of \<open>s\<close> are the leading ones of its reversal, each read backwards.\<close>

definition TrimRightSpace :: "string \<Rightarrow> string" where
  "TrimRightSpace s = rev (trimRunes (map rev spaceRunes) (rev s))"

definition TrimSpace :: "string \<Rightarrow> string" where
  "TrimSpace s = TrimRightSpace (TrimLeftSpace s)"

subsection \<open>strings.ToLower and strings.HasSuffix\<close>

text \<open>
  \<open>strings.ToLower\<close> maps every letter to its lower case. The model lowers the ASCII
  letters and keeps every other byte. The code applies it only to test for the suffix
  \<open>.xes\<close>: an ASCII byte of a Go string always decodes to itself, and no rune outside
  ASCII has \<open>.\<close>, \<open>x\<close>, \<open>e\<close> or \<open>s\<close> as its lower case, so that test reads the same from
  both.
\<close>

definition toLowerByte :: "char \<Rightarrow> char" where
  "toLowerByte c =
     (case map_of (zip ''ABCDEFGHIJKLMNOPQRSTUVWXYZ'' ''abcdefghijklmnopqrstuvwxyz'') c of
        Some l \<Rightarrow> l
      | None \<Rightarrow> c)"

definition ToLower :: "string \<Rightarrow> string" where
  "ToLower s = map toLowerByte s"

definition HasSuffix :: "string \<Rightarrow> string \<Rightarrow> bool" where
  "HasSuffix s suf \<longleftrightarrow>
     length suf \<le> length s \<and> drop (length s - length suf) s = suf"

subsection \<open>filepath.Clean\<close>

text \<open>
  \<open>filepath.Clean\<close> on a system whose separator is \<open>/\<close>. It reads the path element by
  element: an empty element and a \<open>.\<close> element are dropped; a \<open>..\<close> element removes the
  element before it when that is not itself a kept \<open>..\<close>, is kept when there is none and
  the path is not rooted, and is dropped at the root; every other element is kept. The
  kept elements are joined by single separators, after the root's separator when the
  path is rooted; the empty result is \<open>.\<close>.
\<close>

fun splitSep :: "string \<Rightarrow> string list" where
  "splitSep [] = [[]]"
| "splitSep (c # cs) =
     (if c = CHR ''/'' then [] # splitSep cs
      else (case splitSep cs of
              [] \<Rightarrow> [[c]]
            | e # es \<Rightarrow> (c # e) # es))"

fun joinSep :: "string list \<Rightarrow> string" where
  "joinSep [] = []"
| "joinSep [e] = e"
| "joinSep (e # es) = e @ CHR ''/'' # joinSep es"

fun cleanLoop :: "bool \<Rightarrow> string list \<Rightarrow> string list \<Rightarrow> string list" where
  "cleanLoop rooted out [] = out"
| "cleanLoop rooted out (e # es) =
     (if e = [] \<or> e = ''.'' then cleanLoop rooted out es
      else if e = ''..'' then
        (if out \<noteq> [] \<and> last out \<noteq> ''..'' then cleanLoop rooted (butlast out) es
         else if \<not> rooted then cleanLoop rooted (out @ [''..'']) es
         else cleanLoop rooted out es)
      else cleanLoop rooted (out @ [e]) es)"

definition Clean :: "string \<Rightarrow> string" where
  "Clean path =
     (if path = [] then ''.''
      else
        let rooted = (hd path = CHR ''/'');
            out = cleanLoop rooted [] (splitSep path);
            s = (if rooted then ''/'' else []) @ joinSep out
        in if s = [] then ''.'' else s)"

section \<open>The functions of change.go\<close>

subsection \<open>isValidXESFile\<close>

definition isValidXESFile :: "string \<Rightarrow> bool" where
  "isValidXESFile filePath \<longleftrightarrow> HasSuffix (ToLower filePath) ''.xes''"

subsection \<open>collectAttributeKeys\<close>

text \<open>
  \<open>keyMap\<close> is a \<open>map[string]struct{}\<close>: only its key set matters, so it is a set of
  strings. Each \<open>range\<close> loop of the source is a \<open>fold\<close> over the slice.
\<close>

definition collectAttributeKeys :: "XES \<Rightarrow> string set" where
  "collectAttributeKeys xes =
     fold (\<lambda>trace keyMap.
        let keyMap =
          fold (\<lambda>attr keyMap.
              if StringAttribute.Key attr = ''concept:name''
              then insert ''case:concept:name'' keyMap
              else insert (StringAttribute.Key attr) keyMap)
            (Trace.StringAttributes trace) keyMap
        in fold (\<lambda>event keyMap.
              let keyMap =
                fold (\<lambda>attr keyMap. insert (StringAttribute.Key attr) keyMap)
                  (Event.StringAttributes event) keyMap
              in fold (\<lambda>attr keyMap. insert (DateAttribute.Key attr) keyMap)
                   (Event.DateAttributes event) keyMap)
            (Trace.Events trace) keyMap)
       (Traces xes) {}"

subsection \<open>collectHeader\<close>

text \<open>
  \<open>for key := range keyMap\<close> visits every key of the map once, in an order that Go leaves
  unspecified and that may differ from one loop over the same map to the next. The
  order of one execution of the loop is the parameter \<open>order\<close>: the keys of the map as
  that loop visits them. \<open>rangeOrder\<close> says that \<open>order\<close> is such an order for \<open>keyMap\<close>.
\<close>

definition rangeOrder :: "(string set \<Rightarrow> string list) \<Rightarrow> string set \<Rightarrow> bool" where
  "rangeOrder order keyMap \<longleftrightarrow> distinct (order keyMap) \<and> set (order keyMap) = keyMap"

definition collectHeader :: "(string set \<Rightarrow> string list) \<Rightarrow> string set \<Rightarrow> string list" where
  "collectHeader order keyMap =
     fold (\<lambda>key keys. keys @ [TrimSpace key]) (order keyMap) []"

subsection \<open>findIndex and setAttributeValue\<close>

fun findIndexFrom :: "nat \<Rightarrow> string list \<Rightarrow> string \<Rightarrow> int" where
  "findIndexFrom i [] key = - 1"
| "findIndexFrom i (k # keys) key =
     (if k = key then int i else findIndexFrom (Suc i) keys key)"

definition findIndex :: "string list \<Rightarrow> string \<Rightarrow> int" where
  "findIndex keys key = findIndexFrom 0 keys key"

text \<open>
  An assignment \<open>record[index] = v\<close> panics in Go when the index is out of range. A
  function that may panic returns \<open>Inl\<close> of the panic, and \<open>Inr\<close> of the updated slice
  otherwise; the slice is shared with the caller, who goes on with the updated one.
\<close>

datatype panic = IndexOutOfRange

definition setIndex :: "string list \<Rightarrow> int \<Rightarrow> string \<Rightarrow> panic + string list" where
  "setIndex record index v =
     (if 0 \<le> index \<and> index < int (length record)
      then Inr (record[nat index := v])
      else Inl IndexOutOfRange)"

fun setAttributeValue :: "string list \<Rightarrow> string list \<Rightarrow> attr \<Rightarrow> panic + string list" where
  "setAttributeValue record keys (AString v) =
     (let index = findIndex keys (StringAttribute.Key v)
      in if index \<noteq> - 1 then setIndex record index (TrimSpace (StringAttribute.Value v))
         else Inr record)"
| "setAttributeValue record keys (ADate v) =
     (let index = findIndex keys (DateAttribute.Key v)
      in if index \<noteq> - 1 then setIndex record index (TrimSpace (DateAttribute.Value v))
         else Inr record)"
| "setAttributeValue record keys OtherValue = Inr record"

subsection \<open>writeXESToCSV\<close>

text \<open>
  What the operating system and the libraries answer is the environment of a run:
  whether \<open>os.Open\<close> finds the file and with which bytes, what \<open>Decode\<close> of
  \<open>encoding/xml\<close> makes of those bytes, whether \<open>os.Create\<close> and the write of the byte
  order mark succeed, and whether \<open>Write\<close> of the \<open>csv.Writer\<close> accepts a record after the
  records written before it.
\<close>

record Env =
  osOpen :: "string \<Rightarrow> string option"
  xmlDecode :: "string \<Rightarrow> XES option"
  osCreate :: "string \<Rightarrow> bool"
  fileWriteString :: "string \<Rightarrow> bool"
  csvWrite :: "string list list \<Rightarrow> string list \<Rightarrow> bool"

datatype error =
    ErrInvalidExtension string
  | ErrOpen
  | ErrDecode
  | ErrCreate
  | ErrWriteBOM
  | ErrWriteHeader
  | ErrWriteRecord

text \<open>A call returns its \<open>error\<close> (\<open>None\<close> is \<open>nil\<close>) or panics.\<close>

datatype ret = Return "error option" | Panics panic

text \<open>A loop body that may panic, run over a slice: the first panic ends the loop.\<close>

fun forEach :: "('a \<Rightarrow> 's \<Rightarrow> panic + 's) \<Rightarrow> 'a list \<Rightarrow> 's \<Rightarrow> panic + 's" where
  "forEach body [] s = Inr s"
| "forEach body (x # xs) s =
     (case body x s of
        Inl p \<Rightarrow> Inl p
      | Inr s' \<Rightarrow> forEach body xs s')"

text \<open>
  The body of the inner loop of \<open>writeXESToCSV\<close> up to the write: the record of one event.
  The assignment to \<open>attr.Key\<close> changes the loop's copy of the attribute, not the trace.
\<close>

definition eventRecord :: "string list \<Rightarrow> Trace \<Rightarrow> Event \<Rightarrow> panic + string list" where
  "eventRecord keys trace event =
     (let record = replicate (length keys) [] in
      case forEach (\<lambda>attr record. setAttributeValue record keys (AString attr))
             (Event.StringAttributes event) record of
        Inl p \<Rightarrow> Inl p
      | Inr record \<Rightarrow>
     (case forEach (\<lambda>attr record. setAttributeValue record keys (ADate attr))
             (Event.DateAttributes event) record of
        Inl p \<Rightarrow> Inl p
      | Inr record \<Rightarrow>
          forEach (\<lambda>attr record.
              let attr = (if StringAttribute.Key attr = ''concept:name''
                          then attr\<lparr>StringAttribute.Key := ''case:concept:name''\<rparr>
                          else attr)
              in setAttributeValue record keys (AString attr))
            (Trace.StringAttributes trace) record))"

text \<open>
  The writer is the list of the records passed to its \<open>Write\<close> so far; \<open>csvWrite env\<close> says
  of each call whether it succeeds. The loops over the events of a trace and over the
  traces end at the first panic or failed write.
\<close>

fun writeEvents ::
  "Env \<Rightarrow> string list \<Rightarrow> Trace \<Rightarrow> Event list \<Rightarrow> string list list \<Rightarrow> ret \<times> string list list"
where
  "writeEvents env keys trace [] writer = (Return None, writer)"
| "writeEvents env keys trace (event # events) writer =
     (case eventRecord keys trace event of
        Inl p \<Rightarrow> (Panics p, writer)
      | Inr record \<Rightarrow>
          if csvWrite env writer record
          then writeEvents env keys trace events (writer @ [record])
          else (Return (Some ErrWriteRecord), writer @ [record]))"

fun writeTraces ::
  "Env \<Rightarrow> string list \<Rightarrow> Trace list \<Rightarrow> string list list \<Rightarrow> ret \<times> string list list"
where
  "writeTraces env keys [] writer = (Return None, writer)"
| "writeTraces env keys (trace # traces) writer =
     (case writeEvents env keys trace (Trace.Events trace) writer of
        (Return None, writer') \<Rightarrow> writeTraces env keys traces writer'
      | (r, writer') \<Rightarrow> (r, writer'))"

definition writeXESToCSV ::
  "Env \<Rightarrow> (string set \<Rightarrow> string list) \<Rightarrow> string list list \<Rightarrow> XES \<Rightarrow> string set
     \<Rightarrow> ret \<times> string list list"
where
  "writeXESToCSV env order writer xes keyMap =
     (let keys = collectHeader order keyMap
      in writeTraces env keys (Traces xes) writer)"

subsection \<open>ConvertXESToCSV\<close>

text \<open>
  The calls a run makes on files and on the writer, in the order it makes them; a call is
  listed whether it succeeds or not. \<open>Flush\<close> and the two \<open>Close\<close> calls are deferred: they
  run when the function returns or panics, the last deferred first.
\<close>

datatype io =
    OsOpen string
  | OsCreate string
  | WriteString string string
  | CsvWrite string "string list"
  | CsvFlush string
  | FileClose string

text \<open>
  \<open>order1\<close> is the order of the \<open>range\<close> loop of the call \<open>collectHeader(keyMap)\<close> that
  writes the header, \<open>order2\<close> that of the call inside \<open>writeXESToCSV\<close>.
\<close>

definition ConvertXESToCSV ::
  "Env \<Rightarrow> (string set \<Rightarrow> string list) \<Rightarrow> (string set \<Rightarrow> string list) \<Rightarrow> string \<Rightarrow> string
     \<Rightarrow> ret \<times> io list"
where
  "ConvertXESToCSV env order1 order2 XESFilePath CSVFilePath =
     (let inputPath = Clean XESFilePath in
      if \<not> isValidXESFile inputPath
      then (Return (Some (ErrInvalidExtension inputPath)), [])
      else
        case osOpen env inputPath of
          None \<Rightarrow> (Return (Some ErrOpen), [OsOpen inputPath])
        | Some bytes \<Rightarrow>
       (case xmlDecode env bytes of
          None \<Rightarrow> (Return (Some ErrDecode), [OsOpen inputPath, FileClose inputPath])
        | Some xes \<Rightarrow>
            let keyMap = collectAttributeKeys xes;
                csvFilePath = Clean CSVFilePath
            in
            if \<not> osCreate env csvFilePath
            then (Return (Some ErrCreate),
                  [OsOpen inputPath, OsCreate csvFilePath, FileClose inputPath])
            else if \<not> fileWriteString env [CHR 0xEF, CHR 0xBB, CHR 0xBF]
            then (Return (Some ErrWriteBOM),
                  [OsOpen inputPath, OsCreate csvFilePath,
                   WriteString csvFilePath [CHR 0xEF, CHR 0xBB, CHR 0xBF],
                   FileClose csvFilePath, FileClose inputPath])
            else
              let header = collectHeader order1 keyMap in
              if \<not> csvWrite env [] header
              then (Return (Some ErrWriteHeader),
                    [OsOpen inputPath, OsCreate csvFilePath,
                     WriteString csvFilePath [CHR 0xEF, CHR 0xBB, CHR 0xBF],
                     CsvWrite csvFilePath header,
                     CsvFlush csvFilePath, FileClose csvFilePath, FileClose inputPath])
              else
                case writeXESToCSV env order2 [header] xes keyMap of
                  (r, writer) \<Rightarrow>
                    (r,
                     [OsOpen inputPath, OsCreate csvFilePath,
                      WriteString csvFilePath [CHR 0xEF, CHR 0xBB, CHR 0xBF]]
                     @ map (CsvWrite csvFilePath) writer
                     @ [CsvFlush csvFilePath, FileClose csvFilePath, FileClose inputPath])))"

section \<open>What the specification says, in its own words\<close>

text \<open>
  The renaming rule of the specification: the key \<open>concept:name\<close> becomes
  \<open>case:concept:name\<close>, every other key passes through unchanged.
\<close>

definition caseKey :: "string \<Rightarrow> string" where
  "caseKey key = (if key = ''concept:name'' then ''case:concept:name'' else key)"

text \<open>
  The attribute keys of a log as the specification collects them: the renamed keys of
  the string attributes of every trace, and the keys, unchanged, of the string and date
  attributes of every event.
\<close>

definition eventKeys :: "Event \<Rightarrow> string set" where
  "eventKeys event =
     StringAttribute.Key ` set (Event.StringAttributes event)
     \<union> DateAttribute.Key ` set (Event.DateAttributes event)"

definition logKeys :: "XES \<Rightarrow> string set" where
  "logKeys xes =
     (\<Union>trace \<in> set (Traces xes).
        caseKey ` StringAttribute.Key ` set (Trace.StringAttributes trace)
        \<union> (\<Union>event \<in> set (Trace.Events trace). eventKeys event))"


text \<open>
  The writes of one event's row as the specification orders them, each a pair of the key
  that is looked up and the value: the event's string attributes, then its date
  attributes, then the trace's string attributes under the renaming rule.
\<close>

definition writesOf :: "Trace \<Rightarrow> Event \<Rightarrow> (string \<times> string) list" where
  "writesOf trace event =
     map (\<lambda>a. (StringAttribute.Key a, StringAttribute.Value a)) (Event.StringAttributes event)
     @ map (\<lambda>a. (DateAttribute.Key a, DateAttribute.Value a)) (Event.DateAttributes event)
     @ map (\<lambda>a. (caseKey (StringAttribute.Key a), StringAttribute.Value a))
         (Trace.StringAttributes trace)"

text \<open>
  One write: find the column whose name equals the key; if there is one, set its cell to
  the trimmed value, otherwise skip.
\<close>

definition applyWrite :: "string list \<Rightarrow> string \<times> string \<Rightarrow> string list \<Rightarrow> panic + string list" where
  "applyWrite keys w record =
     (let index = findIndex keys (fst w)
      in if index \<noteq> - 1 then setIndex record index (TrimSpace (snd w)) else Inr record)"

text \<open>
  Last write wins: the cell of column \<open>j\<close> after the writes \<open>ws\<close> on an empty row is the
  trimmed value of the last write that finds column \<open>j\<close>, and empty when there is none.
\<close>

definition hits :: "string list \<Rightarrow> (string \<times> string) list \<Rightarrow> nat \<Rightarrow> (string \<times> string) list" where
  "hits keys ws j = filter (\<lambda>w. findIndex keys (fst w) = int j) ws"

definition cellOf :: "string list \<Rightarrow> (string \<times> string) list \<Rightarrow> nat \<Rightarrow> string" where
  "cellOf keys ws j =
     (if hits keys ws j = [] then [] else TrimSpace (snd (last (hits keys ws j))))"

text \<open>The rows of a log in document order: trace by trace, event by event.\<close>

definition documentRows :: "string list \<Rightarrow> XES \<Rightarrow> string list list" where
  "documentRows keys xes =
     concat (map (\<lambda>trace.
         map (\<lambda>event. map (cellOf keys (writesOf trace event)) [0..<length keys])
           (Trace.Events trace))
       (Traces xes))"

section \<open>Concrete logs and environments\<close>

text \<open>
  The scenario of the specification: one trace named \<open>case1\<close> with two events, the first
  with the string attribute \<open>activity\<close>, the second with the date attribute \<open>timestamp\<close>.
\<close>

definition scenarioTrace :: Trace where
  "scenarioTrace =
     \<lparr>Events =
        [\<lparr>Event.StringAttributes =
            [\<lparr>StringAttribute.Key = ''activity'', StringAttribute.Value = ''start''\<rparr>],
          DateAttributes = []\<rparr>,
         \<lparr>Event.StringAttributes = [],
          DateAttributes =
            [\<lparr>DateAttribute.Key = ''timestamp'',
              DateAttribute.Value = ''2024-01-01T00:00:00''\<rparr>]\<rparr>],
      Trace.StringAttributes =
        [\<lparr>StringAttribute.Key = ''concept:name'', StringAttribute.Value = ''case1''\<rparr>]\<rparr>"

definition scenarioLog :: XES where
  "scenarioLog = \<lparr>XMLName = ([], ''log''), Traces = [scenarioTrace]\<rparr>"

text \<open>
  A log whose only event has two string attributes, with the keys \<open>a\<close> after a space
  and \<open>a\<close>: they differ as keys and agree once trimmed.
\<close>

definition paddedEvent :: Event where
  "paddedEvent =
     \<lparr>Event.StringAttributes =
        [\<lparr>StringAttribute.Key = '' a'', StringAttribute.Value = ''x''\<rparr>,
         \<lparr>StringAttribute.Key = ''a'', StringAttribute.Value = ''y''\<rparr>],
      DateAttributes = []\<rparr>"

definition paddedTrace :: Trace where
  "paddedTrace = \<lparr>Events = [paddedEvent], Trace.StringAttributes = []\<rparr>"

definition paddedLog :: XES where
  "paddedLog = \<lparr>XMLName = ([], ''log''), Traces = [paddedTrace]\<rparr>"






text \<open>
  A log with the key \<open>concept:name\<close> at both levels, and one event whose string and date
  attribute share a key with a trace attribute.
\<close>

definition sharedEvent :: Event where
  "sharedEvent =
     \<lparr>Event.StringAttributes =
        [\<lparr>StringAttribute.Key = ''concept:name'', StringAttribute.Value = '' A ''\<rparr>,
         \<lparr>StringAttribute.Key = ''org'', StringAttribute.Value = ''s''\<rparr>],
      DateAttributes =
        [\<lparr>DateAttribute.Key = ''org'', DateAttribute.Value = ''d''\<rparr>]\<rparr>"

definition sharedTrace :: Trace where
  "sharedTrace =
     \<lparr>Events = [sharedEvent],
      Trace.StringAttributes =
        [\<lparr>StringAttribute.Key = ''concept:name'', StringAttribute.Value = ''c1''\<rparr>,
         \<lparr>StringAttribute.Key = ''org'', StringAttribute.Value = ''t''\<rparr>]\<rparr>"

definition sharedLog :: XES where
  "sharedLog = \<lparr>XMLName = ([], ''log''), Traces = [sharedTrace]\<rparr>"

text \<open>
  An environment in which every call succeeds and the input decodes to \<open>xes\<close>, one in
  which the input does not decode, and one in which no file can be opened.
\<close>

definition okEnv :: "XES \<Rightarrow> Env" where
  "okEnv xes =
     \<lparr>osOpen = (\<lambda>path. Some []), xmlDecode = (\<lambda>bytes. Some xes), osCreate = (\<lambda>path. True),
      fileWriteString = (\<lambda>bytes. True), csvWrite = (\<lambda>writer record. True)\<rparr>"

definition badXmlEnv :: Env where
  "badXmlEnv =
     \<lparr>osOpen = (\<lambda>path. Some ''<log><trace>''), xmlDecode = (\<lambda>bytes. None),
      osCreate = (\<lambda>path. True), fileWriteString = (\<lambda>bytes. True),
      csvWrite = (\<lambda>writer record. True)\<rparr>"

definition noFileEnv :: Env where
  "noFileEnv =
     \<lparr>osOpen = (\<lambda>path. None), xmlDecode = (\<lambda>bytes. None), osCreate = (\<lambda>path. True),
      fileWriteString = (\<lambda>bytes. True), csvWrite = (\<lambda>writer record. True)\<rparr>"

section \<open>Lemmas\<close>

text \<open>The definitions that evaluate the code on a concrete input.\<close>

lemmas eval_defs =
  eventRecord_def findIndex_def setIndex_def Let_def
  TrimSpace_def TrimLeftSpace_def TrimRightSpace_def trimRunes.simps leadingRune_def spaceRunes_def
  sharedTrace_def sharedEvent_def sharedLog_def scenarioLog_def scenarioTrace_def
  paddedLog_def paddedTrace_def paddedEvent_def

subsection \<open>Trimming is idempotent\<close>







subsection \<open>The index that findIndex returns\<close>

lemma findIndexFrom_range:
  "findIndexFrom i keys key = - 1 \<or>
   (int i \<le> findIndexFrom i keys key \<and> findIndexFrom i keys key < int i + int (length keys))"
  by (induction keys arbitrary: i) (auto, fastforce+)

lemma findIndexFrom_absent: "findIndexFrom i keys key = - 1 \<longleftrightarrow> key \<notin> set keys"
proof (induction keys arbitrary: i)
  case Nil
  then show ?case by simp
next
  case (Cons k keys)
  show ?case
  proof (cases "k = key")
    case True
    then show ?thesis by simp
  next
    case False
    with Cons [of "Suc i"] show ?thesis by simp
  qed
qed

lemma findIndex_absent: "findIndex keys key = - 1 \<longleftrightarrow> key \<notin> set keys"
  by (simp add: findIndex_def findIndexFrom_absent)

lemma findIndex_range:
  "findIndex keys key = - 1 \<or> (0 \<le> findIndex keys key \<and> findIndex keys key < int (length keys))"
  using findIndexFrom_range [of 0 keys key] by (simp add: findIndex_def)

lemma findIndexFrom_nth:
  "findIndexFrom i keys key = int j \<Longrightarrow> i \<le> j \<and> j - i < length keys \<and> keys ! (j - i) = key"
proof (induction keys arbitrary: i)
  case Nil
  then show ?case by simp
next
  case (Cons k keys)
  show ?case
  proof (cases "k = key")
    case True
    with Cons.prems show ?thesis by simp
  next
    case False
    with Cons.prems have "findIndexFrom (Suc i) keys key = int j" by simp
    from Cons.IH [OF this] have "Suc i \<le> j" "j - Suc i < length keys" "keys ! (j - Suc i) = key"
      by auto
    moreover from this have "j - i = Suc (j - Suc i)"
      by arith
    ultimately show ?thesis
      by simp
  qed
qed

lemma findIndex_nth: "findIndex keys key = int j \<Longrightarrow> j < length keys \<and> keys ! j = key"
  using findIndexFrom_nth [of 0 keys key j] by (simp add: findIndex_def)

lemma findIndex_present:
  "key \<in> set keys \<Longrightarrow> \<exists>j < length keys. findIndex keys key = int j \<and> keys ! j = key"
proof -
  assume "key \<in> set keys"
  then have "findIndex keys key \<noteq> - 1"
    by (simp add: findIndex_absent)
  with findIndex_range [of keys key] have "0 \<le> findIndex keys key"
    by auto
  then obtain j where j: "findIndex keys key = int j"
    using nonneg_int_cases by blast
  with findIndex_nth [OF j] show ?thesis by blast
qed

subsection \<open>The collected keys and the header\<close>

lemma fold_insert_image: "fold (\<lambda>a m. insert (f a) m) xs m = m \<union> f ` set xs"
  by (induction xs arbitrary: m) auto

lemma fold_union: "fold (\<lambda>x m. m \<union> g x) xs m = m \<union> (\<Union>x \<in> set xs. g x)"
  by (induction xs arbitrary: m) auto

lemma collectAttributeKeys_logKeys: "collectAttributeKeys xes = logKeys xes"
proof -
  have rename: "(\<lambda>attr keyMap.
        if StringAttribute.Key attr = ''concept:name''
        then insert ''case:concept:name'' keyMap
        else insert (StringAttribute.Key attr) keyMap)
      = (\<lambda>attr keyMap. insert (caseKey (StringAttribute.Key attr)) keyMap)"
    by (auto simp: caseKey_def fun_eq_iff)
  show ?thesis
    unfolding collectAttributeKeys_def logKeys_def eventKeys_def rename
    by (simp add: fold_insert_image fold_union Let_def Un_assoc image_image)
qed

lemma collectHeader_map: "collectHeader order keyMap = map TrimSpace (order keyMap)"
proof -
  have "fold (\<lambda>key keys. keys @ [TrimSpace key]) xs acc = acc @ map TrimSpace xs" for xs acc
    by (induction xs arbitrary: acc) auto
  then show ?thesis
    by (simp add: collectHeader_def)
qed

lemma set_collectHeader:
  "rangeOrder order keyMap \<Longrightarrow> set (collectHeader order keyMap) = TrimSpace ` keyMap"
  by (auto simp: collectHeader_map rangeOrder_def)

lemma length_collectHeader:
  "rangeOrder order keyMap \<Longrightarrow> length (collectHeader order keyMap) = card keyMap"
  using distinct_card [of "order keyMap"] by (simp add: collectHeader_map rangeOrder_def)

text \<open>
  The header names are the trimmed keys of the log, one column for each key as it stands;
  they are distinct when no two keys agree once trimmed.
\<close>

lemma header_names:
  assumes "rangeOrder order (collectAttributeKeys xes)"
  shows "set (collectHeader order (collectAttributeKeys xes)) = TrimSpace ` logKeys xes"
    and "length (collectHeader order (collectAttributeKeys xes)) = card (logKeys xes)"
    and "inj_on TrimSpace (logKeys xes) \<Longrightarrow>
         distinct (collectHeader order (collectAttributeKeys xes))"
proof -
  show "set (collectHeader order (collectAttributeKeys xes)) = TrimSpace ` logKeys xes"
    using assms by (simp add: set_collectHeader collectAttributeKeys_logKeys)
  show "length (collectHeader order (collectAttributeKeys xes)) = card (logKeys xes)"
    using assms by (simp add: length_collectHeader collectAttributeKeys_logKeys)
  show "distinct (collectHeader order (collectAttributeKeys xes))"
    if "inj_on TrimSpace (logKeys xes)"
    using assms that
    by (simp add: collectHeader_map distinct_map rangeOrder_def collectAttributeKeys_logKeys)
qed

subsection \<open>The record of an event\<close>

lemma setAttributeValue_AString:
  "setAttributeValue row keys (AString a) =
     applyWrite keys (StringAttribute.Key a, StringAttribute.Value a) row"
  by (simp add: applyWrite_def Let_def)

lemma setAttributeValue_ADate:
  "setAttributeValue row keys (ADate a) =
     applyWrite keys (DateAttribute.Key a, DateAttribute.Value a) row"
  by (simp add: applyWrite_def Let_def)

lemma setAttributeValue_renamed:
  "setAttributeValue row keys
     (AString (if StringAttribute.Key a = ''concept:name''
               then a\<lparr>StringAttribute.Key := ''case:concept:name''\<rparr> else a)) =
     applyWrite keys (caseKey (StringAttribute.Key a), StringAttribute.Value a) row"
  by (simp add: applyWrite_def caseKey_def Let_def)

lemma forEach_append:
  "forEach body (xs @ ys) s =
     (case forEach body xs s of Inl p \<Rightarrow> Inl p | Inr s' \<Rightarrow> forEach body ys s')"
  by (induction xs arbitrary: s) (auto split: sum.splits)

lemma forEach_map: "forEach body (map g xs) s = forEach (\<lambda>x. body (g x)) xs s"
  by (induction xs arbitrary: s) (auto split: sum.splits)

lemma eventRecord_writes:
  "eventRecord keys trace event =
     forEach (applyWrite keys) (writesOf trace event) (replicate (length keys) [])"
  unfolding eventRecord_def writesOf_def Let_def forEach_append forEach_map
    setAttributeValue_renamed
  unfolding setAttributeValue_AString setAttributeValue_ADate
  by (simp split: sum.splits)

lemma applyWrite_miss: "findIndex keys (fst w) = - 1 \<Longrightarrow> applyWrite keys w row = Inr row"
  by (simp add: applyWrite_def)

lemma applyWrite_hit:
  "findIndex keys (fst w) = int i \<Longrightarrow> length row = length keys \<Longrightarrow>
   applyWrite keys w row = Inr (row[i := TrimSpace (snd w)])"
  using findIndex_nth [of keys "fst w" i] by (simp add: applyWrite_def setIndex_def)

lemma forEach_applyWrite:
  "length row = length keys \<Longrightarrow>
   forEach (applyWrite keys) ws row =
     Inr (map (\<lambda>j. if hits keys ws j = [] then row ! j
                    else TrimSpace (snd (last (hits keys ws j)))) [0..<length keys])"
proof (induction ws arbitrary: row)
  case Nil
  then show ?case
    using map_nth [of row] by (simp add: hits_def)
next
  case (Cons w ws)
  show ?case
  proof (cases "findIndex keys (fst w) = - 1")
    case True
    then have "hits keys (w # ws) j = hits keys ws j" for j
      by (simp add: hits_def)
    with True Cons show ?thesis
      by (simp add: applyWrite_miss)
  next
    case False
    with findIndex_range [of keys "fst w"] have "0 \<le> findIndex keys (fst w)"
      by auto
    then obtain i where i: "findIndex keys (fst w) = int i"
      using nonneg_int_cases by blast
    then have "i < length keys"
      using findIndex_nth by blast
    have step: "applyWrite keys w row = Inr (row[i := TrimSpace (snd w)])"
      using i Cons.prems by (rule applyWrite_hit)
    have len: "length (row[i := TrimSpace (snd w)]) = length keys"
      using Cons.prems by simp
    have "(if hits keys ws j = [] then row[i := TrimSpace (snd w)] ! j
           else TrimSpace (snd (last (hits keys ws j)))) =
          (if hits keys (w # ws) j = [] then row ! j
           else TrimSpace (snd (last (hits keys (w # ws) j))))"
      if "j < length keys" for j
    proof (cases "j = i")
      case True
      with i \<open>i < length keys\<close> Cons.prems show ?thesis
        by (simp add: hits_def)
    next
      case False
      with i have "hits keys (w # ws) j = hits keys ws j"
        by (simp add: hits_def)
      with False show ?thesis
        by simp
    qed
    then show ?thesis
      by (simp add: step Cons.IH [OF len])
  qed
qed

lemma eventRecord_cells:
  "eventRecord keys trace event =
     Inr (map (cellOf keys (writesOf trace event)) [0..<length keys])"
proof -
  have "(\<lambda>j. if hits keys ws j = [] then replicate (length keys) [] ! j
              else TrimSpace (snd (last (hits keys ws j)))) j = cellOf keys ws j"
    if "j < length keys" for j ws
    using that by (simp add: cellOf_def)
  then show ?thesis
    by (simp add: eventRecord_writes forEach_applyWrite)
qed

subsection \<open>The loops of writeXESToCSV\<close>

lemma writeEvents_prefix:
  "\<exists>n. snd (writeEvents env keys trace events writer) =
         writer @ take n (map (\<lambda>event. map (cellOf keys (writesOf trace event)) [0..<length keys]) events)"
proof (induction events arbitrary: writer)
  case Nil
  then show ?case by simp
next
  case (Cons event events)
  let ?row = "map (cellOf keys (writesOf trace event)) [0..<length keys]"
  let ?rows = "map (\<lambda>event. map (cellOf keys (writesOf trace event)) [0..<length keys]) events"
  show ?case
  proof (cases "csvWrite env writer ?row")
    case True
    from Cons [of "writer @ [?row]"] obtain n where
      "snd (writeEvents env keys trace events (writer @ [?row])) = (writer @ [?row]) @ take n ?rows"
      by blast
    with True show ?thesis
      by (intro exI [of _ "Suc n"]) (simp add: eventRecord_cells)
  next
    case False
    then show ?thesis
      by (intro exI [of _ "Suc 0"]) (simp add: eventRecord_cells)
  qed
qed

lemma writeEvents_returned:
  "writeEvents env keys trace events writer = (Return None, writer') \<Longrightarrow>
   writer' = writer @ map (\<lambda>event. map (cellOf keys (writesOf trace event)) [0..<length keys]) events"
proof (induction events arbitrary: writer)
  case Nil
  then show ?case by simp
next
  case (Cons event events)
  let ?row = "map (cellOf keys (writesOf trace event)) [0..<length keys]"
  from Cons.prems have ok: "csvWrite env writer ?row"
    by (simp add: eventRecord_cells split: if_splits)
  with Cons.prems have "writeEvents env keys trace events (writer @ [?row]) = (Return None, writer')"
    by (simp add: eventRecord_cells)
  from Cons.IH [OF this] show ?case
    by simp
qed

lemma writeEvents_no_panic: "fst (writeEvents env keys trace events writer) \<noteq> Panics p"
  by (induction events arbitrary: writer) (auto simp: eventRecord_cells)

lemma writeEvents_ok:
  "\<forall>w row. csvWrite env w row \<Longrightarrow>
   writeEvents env keys trace events writer =
     (Return None, writer @ map (\<lambda>event. map (cellOf keys (writesOf trace event)) [0..<length keys]) events)"
  by (induction events arbitrary: writer) (auto simp: eventRecord_cells)

lemma documentRows_Cons:
  "documentRows keys (xes\<lparr>Traces := trace # traces\<rparr>) =
     map (\<lambda>event. map (cellOf keys (writesOf trace event)) [0..<length keys]) (Trace.Events trace)
     @ documentRows keys (xes\<lparr>Traces := traces\<rparr>)"
  by (simp add: documentRows_def)

lemma writeTraces_returned:
  "writeTraces env keys traces writer = (Return None, writer') \<Longrightarrow>
   writer' = writer @ documentRows keys (xes\<lparr>Traces := traces\<rparr>)"
proof (induction traces arbitrary: writer)
  case Nil
  then show ?case by (simp add: documentRows_def)
next
  case (Cons trace traces)
  obtain r w where rw: "writeEvents env keys trace (Trace.Events trace) writer = (r, w)"
    by (cases "writeEvents env keys trace (Trace.Events trace) writer")
  with Cons.prems have r: "r = Return None"
    by (auto split: ret.splits option.splits)
  with rw Cons.prems have "writeTraces env keys traces w = (Return None, writer')"
    by simp
  from Cons.IH [OF this] writeEvents_returned [OF rw [unfolded r]] show ?case
    by (simp add: documentRows_Cons)
qed

lemma writeTraces_ok:
  "\<forall>w row. csvWrite env w row \<Longrightarrow>
   writeTraces env keys traces writer =
     (Return None, writer @ documentRows keys (xes\<lparr>Traces := traces\<rparr>))"
  by (induction traces arbitrary: writer) (simp_all add: documentRows_def writeEvents_ok)

lemma writeTraces_no_panic: "fst (writeTraces env keys traces writer) \<noteq> Panics p"
proof (induction traces arbitrary: writer)
  case Nil
  then show ?case by simp
next
  case (Cons trace traces)
  obtain r w where rw: "writeEvents env keys trace (Trace.Events trace) writer = (r, w)"
    by (cases "writeEvents env keys trace (Trace.Events trace) writer")
  with writeEvents_no_panic [of env keys trace "Trace.Events trace" writer p] have "r \<noteq> Panics p"
    by simp
  with rw Cons.IH [of w] show ?case
    by (auto split: ret.splits option.splits)
qed

lemma writeTraces_prefix:
  "\<exists>n. snd (writeTraces env keys traces writer) =
         writer @ take n (documentRows keys (xes\<lparr>Traces := traces\<rparr>))"
proof (induction traces arbitrary: writer)
  case Nil
  then show ?case by simp
next
  case (Cons trace traces)
  let ?rows = "map (\<lambda>event. map (cellOf keys (writesOf trace event)) [0..<length keys]) (Trace.Events trace)"
  let ?rest = "documentRows keys (xes\<lparr>Traces := traces\<rparr>)"
  obtain r w where rw: "writeEvents env keys trace (Trace.Events trace) writer = (r, w)"
    by (cases "writeEvents env keys trace (Trace.Events trace) writer")
  show ?case
  proof (cases "r = Return None")
    case True
    with rw have w: "w = writer @ ?rows"
      using writeEvents_returned by blast
    from Cons.IH [of w] obtain n where
      "snd (writeTraces env keys traces w) = w @ take n ?rest"
      by blast
    with rw True w show ?thesis
      unfolding documentRows_Cons by (intro exI [of _ "length ?rows + n"]) simp
  next
    case False
    with rw have res: "snd (writeTraces env keys (trace # traces) writer) = w"
      by (auto split: ret.splits option.splits)
    from writeEvents_prefix [of env keys trace "Trace.Events trace" writer] rw
    obtain n where "w = writer @ take n ?rows"
      by auto
    with res show ?thesis
      unfolding documentRows_Cons
      by (intro exI [of _ "min n (length ?rows)"]) (simp add: min_def)
  qed
qed

lemma length_documentRows:
  "length (documentRows keys xes) = sum_list (map (\<lambda>trace. length (Trace.Events trace)) (Traces xes))"
  by (simp add: documentRows_def length_concat comp_def)

lemma hits_append: "hits keys (xs @ ys) j = hits keys xs j @ hits keys ys j"
  by (simp add: hits_def)


lemma length_documentRow:
  "row \<in> set (documentRows keys xes) \<Longrightarrow> length row = length keys"
  by (auto simp: documentRows_def)

lemma setAttributeValue_length:
  assumes len: "length row = length keys"
  shows "\<exists>row'. setAttributeValue row keys a = Inr row' \<and> length row' = length keys"
proof (cases a)
  case (AString v)
  show ?thesis
    using len findIndex_range [of keys "StringAttribute.Key v"]
    by (auto simp: AString setIndex_def Let_def)
next
  case (ADate v)
  show ?thesis
    using len findIndex_range [of keys "DateAttribute.Key v"]
    by (auto simp: ADate setIndex_def Let_def)
next
  case OtherValue
  with len show ?thesis by simp
qed

lemma writeXESToCSV_prefix:
  "\<exists>n. snd (writeXESToCSV env order writer xes keyMap) =
         writer @ take n (documentRows (collectHeader order keyMap) xes)"
  using writeTraces_prefix [of env "collectHeader order keyMap" "Traces xes" writer xes]
  by (simp add: writeXESToCSV_def)

lemma scenario_keys:
  "collectAttributeKeys scenarioLog = {''case:concept:name'', ''activity'', ''timestamp''}"
  by (auto simp: collectAttributeKeys_def scenarioLog_def scenarioTrace_def)

lemma documentRows_eventRecord:
  "map Inr (documentRows keys xes) =
     concat (map (\<lambda>trace. map (eventRecord keys trace) (Trace.Events trace)) (Traces xes))"
proof -
  have "eventRecord keys trace =
      (\<lambda>event. Inr (map (cellOf keys (writesOf trace event)) [0..<length keys]))" for trace
    by (rule ext) (rule eventRecord_cells)
  then show ?thesis
    by (simp add: documentRows_def map_concat comp_def)
qed

text \<open>One call of \<open>setAttributeValue\<close> with a key that is a column stores the trimmed value.\<close>

lemma setAttributeValue_stores_trimmed:
  "(key \<in> set keys \<and> length row = length keys \<longrightarrow>
      (\<exists>j<length keys. findIndex keys key = int j \<and> keys ! j = key
        \<and> setAttributeValue row keys
            (AString \<lparr>StringAttribute.Key = key, StringAttribute.Value = v\<rparr>) =
           Inr (row[j := TrimSpace v])
        \<and> setAttributeValue row keys
            (ADate \<lparr>DateAttribute.Key = key, DateAttribute.Value = v\<rparr>) =
           Inr (row[j := TrimSpace v])
        \<and> row[j := TrimSpace v] ! j = TrimSpace v))
   \<and> TrimSpace ''  foo  '' = ''foo''"
proof (intro conjI impI)
  assume a: "key \<in> set keys \<and> length row = length keys"
  then obtain j where j: "j < length keys" "findIndex keys key = int j" "keys ! j = key"
    using findIndex_present by blast
  from j a have w: "applyWrite keys (key, v) row = Inr (row[j := TrimSpace v])"
    by (simp add: applyWrite_hit)
  from j a w show "\<exists>j<length keys. findIndex keys key = int j \<and> keys ! j = key
        \<and> setAttributeValue row keys
            (AString \<lparr>StringAttribute.Key = key, StringAttribute.Value = v\<rparr>) =
           Inr (row[j := TrimSpace v])
        \<and> setAttributeValue row keys
            (ADate \<lparr>DateAttribute.Key = key, DateAttribute.Value = v\<rparr>) =
           Inr (row[j := TrimSpace v])
        \<and> row[j := TrimSpace v] ! j = TrimSpace v"
    by (intro exI [of _ j]) (simp add: setAttributeValue_AString setAttributeValue_ADate
        del: setAttributeValue.simps)
next
  show "TrimSpace ''  foo  '' = ''foo''"
    by (simp add: eval_defs)
qed

subsection \<open>Clean keeps the extension\<close>

lemma HasSuffix_suffix: "HasSuffix s suf \<longleftrightarrow> suffix suf s"
proof
  assume "HasSuffix s suf"
  then have "s = take (length s - length suf) s @ suf"
    by (metis HasSuffix_def append_take_drop_id)
  then show "suffix suf s"
    by (rule suffixI)
next
  assume "suffix suf s"
  then obtain zs where "s = zs @ suf"
    by (auto simp: suffix_def)
  then show "HasSuffix s suf"
    by (simp add: HasSuffix_def)
qed

lemma splitSep_not_Nil: "splitSep p \<noteq> []"
  by (induction p) (auto split: list.splits)

lemma splitSep_no_sep: "CHR ''/'' \<notin> set s \<Longrightarrow> splitSep s = [s]"
  by (induction s) auto

lemma splitSep_append:
  "CHR ''/'' \<notin> set s \<Longrightarrow>
   splitSep (p @ s) = butlast (splitSep p) @ [last (splitSep p) @ s]"
proof (induction p)
  case Nil
  then show ?case by (simp add: splitSep_no_sep)
next
  case (Cons c p)
  obtain e es where X: "splitSep p = e # es"
    using splitSep_not_Nil [of p] by (cases "splitSep p") auto
  show ?case
  proof (cases "c = CHR ''/''")
    case True
    with Cons X show ?thesis by simp
  next
    case False
    with Cons X show ?thesis
      by (cases es) auto
  qed
qed

lemma cleanLoop_snoc:
  "e \<noteq> [] \<Longrightarrow> e \<noteq> ''.'' \<Longrightarrow> e \<noteq> ''..'' \<Longrightarrow>
   cleanLoop rooted out (es @ [e]) = cleanLoop rooted out es @ [e]"
  by (induction es arbitrary: out) auto

lemma suffix_joinSep_snoc: "suffix e (joinSep (es @ [e]))"
proof (induction es)
  case Nil
  then show ?case by simp
next
  case (Cons x es)
  obtain y ys where "es @ [e] = y # ys"
    by (cases "es @ [e]") auto
  with Cons show ?case
    by (simp add: suffix_def) (metis append.assoc append_Cons)
qed

lemma toLowerByte_sep: "toLowerByte c \<in> set ''.xes'' \<Longrightarrow> c \<noteq> CHR ''/''"
  by (auto simp: toLowerByte_def)

lemma Clean_keeps_suffix:
  assumes s: "CHR ''/'' \<notin> set s" and len: "2 < length s"
  shows "suffix s (Clean (p @ s))"
proof -
  let ?rooted = "hd (p @ s) = CHR ''/''"
  let ?e = "last (splitSep p) @ s"
  from len have e: "?e \<noteq> []" "?e \<noteq> ''.''" "?e \<noteq> ''..''"
    by (auto simp: append_eq_Cons_conv)
  have "cleanLoop ?rooted [] (splitSep (p @ s)) =
      cleanLoop ?rooted [] (butlast (splitSep p)) @ [?e]"
    using e by (simp add: splitSep_append [OF s] cleanLoop_snoc)
  then have "suffix ?e (joinSep (cleanLoop ?rooted [] (splitSep (p @ s))))"
    by (simp add: suffix_joinSep_snoc)
  then have "suffix s (joinSep (cleanLoop ?rooted [] (splitSep (p @ s))))"
    by (meson suffix_order.trans suffixI)
  then obtain zs where zs: "joinSep (cleanLoop ?rooted [] (splitSep (p @ s))) = zs @ s"
    by (auto simp: suffix_def)
  from len have "s \<noteq> []" "p @ s \<noteq> []"
    by auto
  then show ?thesis
    by (simp add: Clean_def Let_def zs suffix_def)
qed

lemma Clean_keeps_xes: "isValidXESFile p \<Longrightarrow> isValidXESFile (Clean p)"
proof -
  assume "isValidXESFile p"
  then obtain q where "map toLowerByte p = q @ ''.xes''"
    by (auto simp: isValidXESFile_def HasSuffix_suffix ToLower_def suffix_def)
  then obtain p1 s where p: "p = p1 @ s" and s: "map toLowerByte s = ''.xes''"
    by (auto simp: map_eq_append_conv)
  from s have "length (map toLowerByte s) = 4"
    by simp
  then have len: "2 < length s"
    by simp
  have "CHR ''/'' \<notin> set s"
  proof
    assume "CHR ''/'' \<in> set s"
    then have "toLowerByte CHR ''/'' \<in> set (map toLowerByte s)"
      by simp
    then show False
      using toLowerByte_sep s by metis
  qed
  from Clean_keeps_suffix [OF this len, of p1] obtain zs where "Clean p = zs @ s"
    by (auto simp: suffix_def p)
  then have "ToLower (Clean p) = map toLowerByte zs @ ''.xes''"
    by (simp add: ToLower_def s)
  then show ?thesis
    by (simp add: isValidXESFile_def HasSuffix_suffix suffix_def)
qed

subsection \<open>What writeXESToCSV returns\<close>

lemma writeEvents_ret:
  "fst (writeEvents env keys trace events writer) = Return None \<or>
   fst (writeEvents env keys trace events writer) = Return (Some ErrWriteRecord)"
  by (induction events arbitrary: writer) (auto simp: eventRecord_cells)

lemma writeTraces_ret:
  "fst (writeTraces env keys traces writer) = Return None \<or>
   fst (writeTraces env keys traces writer) = Return (Some ErrWriteRecord)"
proof (induction traces arbitrary: writer)
  case Nil
  then show ?case by simp
next
  case (Cons trace traces)
  obtain r w where rw: "writeEvents env keys trace (Trace.Events trace) writer = (r, w)"
    by (cases "writeEvents env keys trace (Trace.Events trace) writer")
  with writeEvents_ret [of env keys trace "Trace.Events trace" writer]
  have "r = Return None \<or> r = Return (Some ErrWriteRecord)"
    by simp
  with rw Cons.IH [of w] show ?case
    by auto
qed

lemma writeXESToCSV_ret:
  "fst (writeXESToCSV env order writer xes keyMap) = Return None \<or>
   fst (writeXESToCSV env order writer xes keyMap) = Return (Some ErrWriteRecord)"
  by (simp add: writeXESToCSV_def writeTraces_ret)

lemma writeXESToCSV_ret_cases:
  "writeXESToCSV env order w xes keyMap = (r, w') \<Longrightarrow>
   r = Return None \<or> r = Return (Some ErrWriteRecord)"
  using writeXESToCSV_ret [of env order w xes keyMap] by simp


subsection \<open>Keys that are never found\<close>






lemma padded_keys: "collectAttributeKeys paddedLog = {'' a'', ''a''}"
  by (auto simp: collectAttributeKeys_def eval_defs)


lemmas path_defs =
  Clean_def isValidXESFile_def HasSuffix_def ToLower_def toLowerByte_def

text \<open>
  The scenario of the specification when both loops over the map visit the keys in the
  same order: each row lines up with the header.
\<close>

lemma scenario_rows_aligned_when_orders_agree:
  "ConvertXESToCSV (okEnv scenarioLog)
       (\<lambda>keyMap. [''activity'', ''timestamp'', ''case:concept:name''])
       (\<lambda>keyMap. [''activity'', ''timestamp'', ''case:concept:name''])
       ''log.xes'' ''out.csv'' =
     (Return None,
      [OsOpen ''log.xes'', OsCreate ''out.csv'',
       WriteString ''out.csv'' [CHR 0xEF, CHR 0xBB, CHR 0xBF],
       CsvWrite ''out.csv'' [''activity'', ''timestamp'', ''case:concept:name''],
       CsvWrite ''out.csv'' [''start'', [], ''case1''],
       CsvWrite ''out.csv'' [[], ''2024-01-01T00:00:00'', ''case1''],
       CsvFlush ''out.csv'', FileClose ''out.csv'', FileClose ''log.xes''])"
proof -
  have c: "Clean ''log.xes'' = ''log.xes''" "Clean ''out.csv'' = ''out.csv''"
    by (simp_all add: Clean_def)
  have v: "isValidXESFile ''log.xes''"
    by (simp add: path_defs)
  show ?thesis
    by (simp add: ConvertXESToCSV_def c v okEnv_def writeXESToCSV_def collectHeader_def eval_defs)
qed

section \<open>The claims\<close>

text \<open>
  C2. The record of an event is the result of the writes in the order: the event's string
  attributes, then its date attributes, then the trace's string attributes under the
  renaming rule. Each cell holds the trimmed value of the last write that found its
  column; so when a trace attribute finds a column, the cell holds the value of the last
  trace attribute that does, whatever the event's attributes wrote there.
\<close>

theorem event_date_trace_last_write_wins:
  "eventRecord keys trace event =
     forEach (applyWrite keys) (writesOf trace event) (replicate (length keys) [])
   \<and> eventRecord keys trace event =
       Inr (map (cellOf keys (writesOf trace event)) [0..<length keys])
   \<and> (\<forall>j a. a \<in> set (Trace.StringAttributes trace)
          \<and> findIndex keys (caseKey (StringAttribute.Key a)) = int j \<longrightarrow>
        cellOf keys (writesOf trace event) j =
          TrimSpace (StringAttribute.Value
            (last (filter (\<lambda>a. findIndex keys (caseKey (StringAttribute.Key a)) = int j)
                     (Trace.StringAttributes trace)))))"
proof (intro conjI allI impI)
  show "eventRecord keys trace event =
      forEach (applyWrite keys) (writesOf trace event) (replicate (length keys) [])"
    by (rule eventRecord_writes)
  show "eventRecord keys trace event =
      Inr (map (cellOf keys (writesOf trace event)) [0..<length keys])"
    by (rule eventRecord_cells)
next
  fix j a
  assume a: "a \<in> set (Trace.StringAttributes trace)
    \<and> findIndex keys (caseKey (StringAttribute.Key a)) = int j"
  let ?P = "\<lambda>a. findIndex keys (caseKey (StringAttribute.Key a)) = int j"
  let ?f = "\<lambda>a. (caseKey (StringAttribute.Key a), StringAttribute.Value a)"
  let ?ts = "filter ?P (Trace.StringAttributes trace)"
  have ne: "?ts \<noteq> []"
    using a by (auto simp: filter_empty_conv)
  have tr: "hits keys (map ?f (Trace.StringAttributes trace)) j = map ?f ?ts"
    by (simp add: hits_def filter_map comp_def)
  have "hits keys (writesOf trace event) j =
      hits keys (map (\<lambda>a. (StringAttribute.Key a, StringAttribute.Value a))
                 (Event.StringAttributes event)) j
      @ hits keys (map (\<lambda>a. (DateAttribute.Key a, DateAttribute.Value a))
                 (Event.DateAttributes event)) j
      @ map ?f ?ts"
    by (simp add: writesOf_def hits_append tr)
  with ne have "hits keys (writesOf trace event) j \<noteq> []"
    and "last (hits keys (writesOf trace event) j) = ?f (last ?ts)"
    by (simp_all add: last_map)
  then show "cellOf keys (writesOf trace event) j =
      TrimSpace (StringAttribute.Value (last ?ts))"
    by (simp add: cellOf_def)
qed

theorem event_date_trace_last_write_wins_witness:
  "eventRecord [''case:concept:name'', ''concept:name'', ''org''] sharedTrace sharedEvent =
     Inr [''c1'', ''A'', ''t'']
   \<and> cellOf [''case:concept:name'', ''concept:name'', ''org'']
        (writesOf sharedTrace sharedEvent) 2 = ''t''"
proof -
  have row: "eventRecord [''case:concept:name'', ''concept:name'', ''org''] sharedTrace sharedEvent =
     Inr [''c1'', ''A'', ''t'']"
    by (simp add: eval_defs)
  have a: "\<lparr>StringAttribute.Key = ''org'', StringAttribute.Value = ''t''\<rparr>
      \<in> set (Trace.StringAttributes sharedTrace)
    \<and> findIndex [''case:concept:name'', ''concept:name'', ''org'']
        (caseKey (StringAttribute.Key \<lparr>StringAttribute.Key = ''org'', StringAttribute.Value = ''t''\<rparr>)) = int 2"
    by (simp add: eval_defs caseKey_def)
  from event_date_trace_last_write_wins
    [of "[''case:concept:name'', ''concept:name'', ''org'']" sharedTrace sharedEvent] a
  have "cellOf [''case:concept:name'', ''concept:name'', ''org'']
        (writesOf sharedTrace sharedEvent) 2 =
     TrimSpace (StringAttribute.Value
            (last (filter (\<lambda>a. findIndex [''case:concept:name'', ''concept:name'', ''org'']
                (caseKey (StringAttribute.Key a)) = int 2)
                     (Trace.StringAttributes sharedTrace))))"
    by blast
  also have "\<dots> = ''t''"
    by (simp add: eval_defs caseKey_def)
  finally show ?thesis
    using row by simp
qed

text \<open>
  C3. \<open>writeXESToCSV\<close> writes the rows of the log in document order, trace by trace and
  event by event, each the record of its event, after what the writer held: when it
  returns \<open>nil\<close> it has written all of them, as many as the traces have events together;
  it does return \<open>nil\<close> when no write fails; and in every case the records passed to the
  writer are a prefix of them.
\<close>

theorem one_row_per_event_in_document_order:
  "(writeXESToCSV env order writer xes keyMap = (Return None, writer') \<longrightarrow>
      writer' = writer @ documentRows (collectHeader order keyMap) xes)
   \<and> ((\<forall>w row. csvWrite env w row) \<longrightarrow>
        writeXESToCSV env order writer xes keyMap =
          (Return None, writer @ documentRows (collectHeader order keyMap) xes))
   \<and> (\<exists>n. snd (writeXESToCSV env order writer xes keyMap) =
          writer @ take n (documentRows (collectHeader order keyMap) xes))
   \<and> length (documentRows (collectHeader order keyMap) xes) =
       sum_list (map (\<lambda>trace. length (Trace.Events trace)) (Traces xes))
   \<and> map Inr (documentRows (collectHeader order keyMap) xes) =
       concat (map (\<lambda>trace. map (eventRecord (collectHeader order keyMap) trace)
                 (Trace.Events trace)) (Traces xes))"
proof (intro conjI impI)
  let ?keys = "collectHeader order keyMap"
  show "writer' = writer @ documentRows ?keys xes"
    if "writeXESToCSV env order writer xes keyMap = (Return None, writer')"
    using that writeTraces_returned [of env ?keys "Traces xes" writer writer' xes]
    by (simp add: writeXESToCSV_def)
  show "writeXESToCSV env order writer xes keyMap = (Return None, writer @ documentRows ?keys xes)"
    if "\<forall>w row. csvWrite env w row"
    using that writeTraces_ok [of env ?keys "Traces xes" writer xes]
    by (simp add: writeXESToCSV_def)
  show "\<exists>n. snd (writeXESToCSV env order writer xes keyMap) =
      writer @ take n (documentRows ?keys xes)"
    by (rule writeXESToCSV_prefix)
  show "length (documentRows ?keys xes) =
      sum_list (map (\<lambda>trace. length (Trace.Events trace)) (Traces xes))"
    by (rule length_documentRows)
  show "map Inr (documentRows ?keys xes) =
      concat (map (\<lambda>trace. map (eventRecord ?keys trace) (Trace.Events trace)) (Traces xes))"
    by (rule documentRows_eventRecord)
qed

theorem one_row_per_event_in_document_order_witness:
  "writeXESToCSV (okEnv scenarioLog)
     (\<lambda>keyMap. [''case:concept:name'', ''activity'', ''timestamp''])
     [[''case:concept:name'', ''activity'', ''timestamp'']]
     scenarioLog (collectAttributeKeys scenarioLog) =
     (Return None,
      [[''case:concept:name'', ''activity'', ''timestamp''],
       [''case1'', ''start'', []],
       [''case1'', [], ''2024-01-01T00:00:00'']])
   \<and> sum_list (map (\<lambda>trace. length (Trace.Events trace)) (Traces scenarioLog)) = 2"
proof -
  let ?o = "\<lambda>keyMap :: string set. [''case:concept:name'', ''activity'', ''timestamp'']"
  have ok: "\<forall>w row. csvWrite (okEnv scenarioLog) w row"
    by (simp add: okEnv_def)
  have rows: "documentRows (collectHeader ?o (collectAttributeKeys scenarioLog)) scenarioLog =
      [[''case1'', ''start'', []], [''case1'', [], ''2024-01-01T00:00:00'']]"
    by (simp add: documentRows_def collectHeader_def cellOf_def hits_def writesOf_def caseKey_def
        eval_defs)
  from one_row_per_event_in_document_order
    [of "okEnv scenarioLog" ?o "[[''case:concept:name'', ''activity'', ''timestamp'']]"
      scenarioLog "collectAttributeKeys scenarioLog"] ok
  have "writeXESToCSV (okEnv scenarioLog) ?o [[''case:concept:name'', ''activity'', ''timestamp'']]
      scenarioLog (collectAttributeKeys scenarioLog) =
      (Return None, [[''case:concept:name'', ''activity'', ''timestamp'']]
        @ documentRows (collectHeader ?o (collectAttributeKeys scenarioLog)) scenarioLog)"
    by blast
  then have "writeXESToCSV (okEnv scenarioLog) ?o [[''case:concept:name'', ''activity'', ''timestamp'']]
      scenarioLog (collectAttributeKeys scenarioLog) =
      (Return None,
       [[''case:concept:name'', ''activity'', ''timestamp''],
        [''case1'', ''start'', []],
        [''case1'', [], ''2024-01-01T00:00:00'']])"
    by (simp add: rows)
  moreover have "sum_list (map (\<lambda>trace. length (Trace.Events trace)) (Traces scenarioLog)) = 2"
    by (simp add: scenarioLog_def scenarioTrace_def)
  ultimately show ?thesis
    by simp
qed

text \<open>
  C4. The renaming rule is applied to the keys of the string attributes of traces, and to
  no other key, in both passes: the collected keys are the renamed keys of the trace
  attributes and the unchanged keys of the string and date attributes of the events,
  and the record of an event looks up the event's keys unchanged and the trace's keys
  renamed.
\<close>

theorem rename_only_trace_level_keys:
  "collectAttributeKeys xes = logKeys xes
   \<and> logKeys xes =
       (\<Union>trace \<in> set (Traces xes).
          caseKey ` StringAttribute.Key ` set (Trace.StringAttributes trace)
          \<union> (\<Union>event \<in> set (Trace.Events trace).
               StringAttribute.Key ` set (Event.StringAttributes event)
               \<union> DateAttribute.Key ` set (Event.DateAttributes event)))
   \<and> eventRecord keys trace event =
       forEach (applyWrite keys)
         (map (\<lambda>a. (StringAttribute.Key a, StringAttribute.Value a))
            (Event.StringAttributes event)
          @ map (\<lambda>a. (DateAttribute.Key a, DateAttribute.Value a)) (Event.DateAttributes event)
          @ map (\<lambda>a. (caseKey (StringAttribute.Key a), StringAttribute.Value a))
              (Trace.StringAttributes trace))
         (replicate (length keys) [])
   \<and> caseKey ''concept:name'' = ''case:concept:name''
   \<and> (if key = ''concept:name'' then True else caseKey key = key)"
  using eventRecord_writes [of keys trace event]
  by (simp add: collectAttributeKeys_logKeys logKeys_def eventKeys_def writesOf_def caseKey_def)

theorem rename_only_trace_level_keys_witness:
  "collectAttributeKeys sharedLog = {''case:concept:name'', ''org'', ''concept:name''}
   \<and> eventRecord [''case:concept:name'', ''org'', ''concept:name''] sharedTrace sharedEvent =
       Inr [''c1'', ''t'', ''A'']"
proof -
  from rename_only_trace_level_keys
    [of sharedLog "[''case:concept:name'', ''org'', ''concept:name'']" sharedTrace sharedEvent
      "''org''"]
  have k: "collectAttributeKeys sharedLog =
       (\<Union>trace \<in> set (Traces sharedLog).
          caseKey ` StringAttribute.Key ` set (Trace.StringAttributes trace)
          \<union> (\<Union>event \<in> set (Trace.Events trace).
               StringAttribute.Key ` set (Event.StringAttributes event)
               \<union> DateAttribute.Key ` set (Event.DateAttributes event)))"
    and r: "eventRecord [''case:concept:name'', ''org'', ''concept:name''] sharedTrace sharedEvent =
       forEach (applyWrite [''case:concept:name'', ''org'', ''concept:name''])
         (map (\<lambda>a. (StringAttribute.Key a, StringAttribute.Value a))
            (Event.StringAttributes sharedEvent)
          @ map (\<lambda>a. (DateAttribute.Key a, DateAttribute.Value a))
              (Event.DateAttributes sharedEvent)
          @ map (\<lambda>a. (caseKey (StringAttribute.Key a), StringAttribute.Value a))
              (Trace.StringAttributes sharedTrace))
         (replicate (length [''case:concept:name'', ''org'', ''concept:name'']) [])"
    by simp_all
  have "collectAttributeKeys sharedLog = {''case:concept:name'', ''org'', ''concept:name''}"
    unfolding k by (auto simp: sharedLog_def sharedTrace_def sharedEvent_def caseKey_def)
  moreover have "eventRecord [''case:concept:name'', ''org'', ''concept:name''] sharedTrace sharedEvent =
       Inr [''c1'', ''t'', ''A'']"
    unfolding r by (simp add: applyWrite_def caseKey_def eval_defs)
  ultimately show ?thesis
    by simp
qed




text \<open>
  C10. \<open>findIndex\<close> returns \<open>-1\<close> or an index below the number of keys, so
  \<open>setAttributeValue\<close> on a row as long as the keys never writes out of range and keeps the
  length; the record of every event has as many cells as there are keys;
  \<open>writeXESToCSV\<close> never panics, every row it writes is as long as its list of keys, and
  that list is as long as the header written from another loop over the same map.
\<close>

theorem rows_fit_header_and_writes_in_bounds:
  "(findIndex keys key = - 1 \<or>
      (0 \<le> findIndex keys key \<and> findIndex keys key < int (length keys)))
   \<and> (length row = length keys \<longrightarrow>
        (\<exists>row'. setAttributeValue row keys a = Inr row' \<and> length row' = length keys))
   \<and> (\<exists>row. eventRecord keys trace event = Inr row \<and> length row = length keys)
   \<and> (\<forall>p. fst (writeXESToCSV env order writer xes keyMap) \<noteq> Panics p)
   \<and> (\<forall>row \<in> set (drop (length writer) (snd (writeXESToCSV env order writer xes keyMap))).
        length row = length (collectHeader order keyMap))
   \<and> (rangeOrder order1 keyMap \<and> rangeOrder order keyMap \<longrightarrow>
        length (collectHeader order1 keyMap) = length (collectHeader order keyMap))"
proof (intro conjI allI impI ballI)
  show "findIndex keys key = - 1 \<or>
      (0 \<le> findIndex keys key \<and> findIndex keys key < int (length keys))"
    by (rule findIndex_range)
  show "\<exists>row'. setAttributeValue row keys a = Inr row' \<and> length row' = length keys"
    if "length row = length keys"
    using that by (rule setAttributeValue_length)
  show "\<exists>row. eventRecord keys trace event = Inr row \<and> length row = length keys"
    by (simp add: eventRecord_cells)
  show "fst (writeXESToCSV env order writer xes keyMap) \<noteq> Panics p" for p
    by (simp add: writeXESToCSV_def writeTraces_no_panic)
  show "length row = length (collectHeader order keyMap)"
    if "row \<in> set (drop (length writer) (snd (writeXESToCSV env order writer xes keyMap)))"
    for row
  proof -
    from writeXESToCSV_prefix [of env order writer xes keyMap] obtain n where
      "snd (writeXESToCSV env order writer xes keyMap) =
         writer @ take n (documentRows (collectHeader order keyMap) xes)"
      by blast
    with that have "row \<in> set (take n (documentRows (collectHeader order keyMap) xes))"
      by simp
    then have "row \<in> set (documentRows (collectHeader order keyMap) xes)"
      by (rule in_set_takeD)
    then show ?thesis
      by (rule length_documentRow)
  qed
  show "length (collectHeader order1 keyMap) = length (collectHeader order keyMap)"
    if "rangeOrder order1 keyMap \<and> rangeOrder order keyMap"
    using that by (simp add: length_collectHeader)
qed

theorem rows_fit_header_and_writes_in_bounds_witness:
  "findIndex [''activity'', ''timestamp'', ''case:concept:name''] ''timestamp'' = 1
   \<and> setAttributeValue [[], [], []] [''activity'', ''timestamp'', ''case:concept:name'']
        (ADate \<lparr>DateAttribute.Key = ''timestamp'', DateAttribute.Value = ''d''\<rparr>) =
       Inr [[], ''d'', []]
   \<and> writeXESToCSV (okEnv scenarioLog)
        (\<lambda>keyMap. [''activity'', ''timestamp'', ''case:concept:name'']) []
        scenarioLog (collectAttributeKeys scenarioLog) =
       (Return None, [[''start'', [], ''case1''], [[], ''2024-01-01T00:00:00'', ''case1'']])
   \<and> length (collectHeader (\<lambda>keyMap. [''case:concept:name'', ''activity'', ''timestamp''])
        (collectAttributeKeys scenarioLog)) = 3
   \<and> length (collectHeader (\<lambda>keyMap. [''activity'', ''timestamp'', ''case:concept:name''])
        (collectAttributeKeys scenarioLog)) = 3"
proof -
  let ?o1 = "\<lambda>keyMap :: string set. [''case:concept:name'', ''activity'', ''timestamp'']"
  let ?o2 = "\<lambda>keyMap :: string set. [''activity'', ''timestamp'', ''case:concept:name'']"
  have o: "rangeOrder ?o1 (collectAttributeKeys scenarioLog)
      \<and> rangeOrder ?o2 (collectAttributeKeys scenarioLog)"
    by (auto simp: rangeOrder_def scenario_keys)
  have len: "length [[], [], []] = length [''activity'', ''timestamp'', ''case:concept:name'']"
    by simp
  from rows_fit_header_and_writes_in_bounds
    [of "[''activity'', ''timestamp'', ''case:concept:name'']" "''timestamp''" "[[], [], []]"
      "ADate \<lparr>DateAttribute.Key = ''timestamp'', DateAttribute.Value = ''d''\<rparr>"
      scenarioTrace "hd (Trace.Events scenarioTrace)" "okEnv scenarioLog" ?o2 "[]" scenarioLog
      "collectAttributeKeys scenarioLog" ?o1] o len
  have "length (collectHeader ?o1 (collectAttributeKeys scenarioLog)) =
      length (collectHeader ?o2 (collectAttributeKeys scenarioLog))"
    by blast
  moreover have "length (collectHeader ?o2 (collectAttributeKeys scenarioLog)) = 3"
    by (simp add: collectHeader_def)
  moreover have "findIndex [''activity'', ''timestamp'', ''case:concept:name''] ''timestamp'' = 1"
    by (simp add: findIndex_def)
  moreover have "setAttributeValue [[], [], []] [''activity'', ''timestamp'', ''case:concept:name'']
        (ADate \<lparr>DateAttribute.Key = ''timestamp'', DateAttribute.Value = ''d''\<rparr>) =
       Inr [[], ''d'', []]"
    by (simp add: eval_defs)
  moreover have "writeXESToCSV (okEnv scenarioLog) ?o2 [] scenarioLog (collectAttributeKeys scenarioLog) =
       (Return None, [[''start'', [], ''case1''], [[], ''2024-01-01T00:00:00'', ''case1'']])"
    by (simp add: writeXESToCSV_def collectHeader_def okEnv_def eval_defs)
  ultimately show ?thesis
    by simp
qed

text \<open>
  C1. The header should hold every trimmed key of the log exactly once. The code removes
  duplicates among the keys as they are and trims them afterwards: for the log whose
  event has the keys \<open>a\<close> after a space and \<open>a\<close>, the header holds the column \<open>a\<close>
  twice.
\<close>

theorem trimmed_header_repeats_column:
  "collectAttributeKeys paddedLog = {'' a'', ''a''}
   \<and> rangeOrder (\<lambda>keyMap. [''a'', '' a'']) (collectAttributeKeys paddedLog)
   \<and> collectHeader (\<lambda>keyMap. [''a'', '' a'']) (collectAttributeKeys paddedLog) = [''a'', ''a'']
   \<and> \<not> distinct (collectHeader (\<lambda>keyMap. [''a'', '' a'']) (collectAttributeKeys paddedLog))"
proof -
  have "collectHeader (\<lambda>keyMap. [''a'', '' a'']) (collectAttributeKeys paddedLog) = [''a'', ''a'']"
    by (simp add: collectHeader_def eval_defs)
  then show ?thesis
    by (auto simp: rangeOrder_def padded_keys)
qed




text \<open>
  C6. In the scenario of the specification the rows should line up with the header. The
  header and the rows come from two loops over the same map; when the first visits
  \<open>case:concept:name\<close>, \<open>activity\<close>, \<open>timestamp\<close> and the second \<open>activity\<close>,
  \<open>timestamp\<close>, \<open>case:concept:name\<close>, the first row holds \<open>start\<close> under
  \<open>case:concept:name\<close> and \<open>case1\<close> under \<open>timestamp\<close>.
\<close>

theorem scenario_rows_misaligned_with_header:
  "rangeOrder (\<lambda>keyMap. [''case:concept:name'', ''activity'', ''timestamp''])
     (collectAttributeKeys scenarioLog)
   \<and> rangeOrder (\<lambda>keyMap. [''activity'', ''timestamp'', ''case:concept:name''])
       (collectAttributeKeys scenarioLog)
   \<and> ConvertXESToCSV (okEnv scenarioLog)
       (\<lambda>keyMap. [''case:concept:name'', ''activity'', ''timestamp''])
       (\<lambda>keyMap. [''activity'', ''timestamp'', ''case:concept:name''])
       ''log.xes'' ''out.csv'' =
     (Return None,
      [OsOpen ''log.xes'', OsCreate ''out.csv'',
       WriteString ''out.csv'' [CHR 0xEF, CHR 0xBB, CHR 0xBF],
       CsvWrite ''out.csv'' [''case:concept:name'', ''activity'', ''timestamp''],
       CsvWrite ''out.csv'' [''start'', [], ''case1''],
       CsvWrite ''out.csv'' [[], ''2024-01-01T00:00:00'', ''case1''],
       CsvFlush ''out.csv'', FileClose ''out.csv'', FileClose ''log.xes''])"
proof -
  have c: "Clean ''log.xes'' = ''log.xes''" "Clean ''out.csv'' = ''out.csv''"
    by (simp_all add: Clean_def)
  have v: "isValidXESFile ''log.xes''"
    by (simp add: path_defs)
  have "ConvertXESToCSV (okEnv scenarioLog)
       (\<lambda>keyMap. [''case:concept:name'', ''activity'', ''timestamp''])
       (\<lambda>keyMap. [''activity'', ''timestamp'', ''case:concept:name''])
       ''log.xes'' ''out.csv'' =
     (Return None,
      [OsOpen ''log.xes'', OsCreate ''out.csv'',
       WriteString ''out.csv'' [CHR 0xEF, CHR 0xBB, CHR 0xBF],
       CsvWrite ''out.csv'' [''case:concept:name'', ''activity'', ''timestamp''],
       CsvWrite ''out.csv'' [''start'', [], ''case1''],
       CsvWrite ''out.csv'' [[], ''2024-01-01T00:00:00'', ''case1''],
       CsvFlush ''out.csv'', FileClose ''out.csv'', FileClose ''log.xes''])"
    by (simp add: ConvertXESToCSV_def c v okEnv_def writeXESToCSV_def collectHeader_def eval_defs)
  then show ?thesis
    by (simp add: rangeOrder_def scenario_keys insert_commute)
qed

text \<open>
  C7. When \<open>Decode\<close> fails, \<open>ConvertXESToCSV\<close> returns the decode error, and all it has done
  is open and close the input file. Whenever it returns the decode error that is all it
  has done, and it calls \<open>os.Create\<close> only after the input has been opened and decoded.
\<close>

theorem decode_error_before_create:
  "(isValidXESFile (Clean XESFilePath) \<and> osOpen env (Clean XESFilePath) = Some bytes
      \<and> xmlDecode env bytes = None \<longrightarrow>
      ConvertXESToCSV env order1 order2 XESFilePath CSVFilePath =
        (Return (Some ErrDecode), [OsOpen (Clean XESFilePath), FileClose (Clean XESFilePath)]))
   \<and> (fst (ConvertXESToCSV env order1 order2 XESFilePath CSVFilePath) = Return (Some ErrDecode) \<longrightarrow>
        snd (ConvertXESToCSV env order1 order2 XESFilePath CSVFilePath) =
          [OsOpen (Clean XESFilePath), FileClose (Clean XESFilePath)])
   \<and> (OsCreate path \<in> set (snd (ConvertXESToCSV env order1 order2 XESFilePath CSVFilePath)) \<longrightarrow>
        (\<exists>bytes xes. osOpen env (Clean XESFilePath) = Some bytes \<and> xmlDecode env bytes = Some xes))"
proof (intro conjI impI)
  assume "isValidXESFile (Clean XESFilePath) \<and> osOpen env (Clean XESFilePath) = Some bytes
      \<and> xmlDecode env bytes = None"
  then show "ConvertXESToCSV env order1 order2 XESFilePath CSVFilePath =
      (Return (Some ErrDecode), [OsOpen (Clean XESFilePath), FileClose (Clean XESFilePath)])"
    by (simp add: ConvertXESToCSV_def Let_def)
next
  assume r: "fst (ConvertXESToCSV env order1 order2 XESFilePath CSVFilePath) = Return (Some ErrDecode)"
  from r show "snd (ConvertXESToCSV env order1 order2 XESFilePath CSVFilePath) =
      [OsOpen (Clean XESFilePath), FileClose (Clean XESFilePath)]"
    by (auto simp: ConvertXESToCSV_def Let_def dest: writeXESToCSV_ret_cases
        split: option.splits if_splits prod.splits)
next
  assume "OsCreate path \<in> set (snd (ConvertXESToCSV env order1 order2 XESFilePath CSVFilePath))"
  then show "\<exists>bytes xes. osOpen env (Clean XESFilePath) = Some bytes \<and> xmlDecode env bytes = Some xes"
    by (auto simp: ConvertXESToCSV_def Let_def split: option.splits if_splits prod.splits)
qed

theorem decode_error_before_create_witness:
  "ConvertXESToCSV badXmlEnv (\<lambda>keyMap. []) (\<lambda>keyMap. []) ''log.xes'' ''out.csv'' =
     (Return (Some ErrDecode), [OsOpen ''log.xes'', FileClose ''log.xes''])"
proof -
  have c: "Clean ''log.xes'' = ''log.xes''"
    by (simp add: Clean_def)
  have "isValidXESFile (Clean ''log.xes'') \<and> osOpen badXmlEnv (Clean ''log.xes'') = Some ''<log><trace>''
      \<and> xmlDecode badXmlEnv ''<log><trace>'' = None"
    unfolding c by (simp add: badXmlEnv_def path_defs)
  with decode_error_before_create
    [of "''log.xes''" badXmlEnv "''<log><trace>''" "\<lambda>keyMap. []" "\<lambda>keyMap. []" "''out.csv''"]
  have "ConvertXESToCSV badXmlEnv (\<lambda>keyMap. []) (\<lambda>keyMap. []) ''log.xes'' ''out.csv'' =
      (Return (Some ErrDecode), [OsOpen (Clean ''log.xes''), FileClose (Clean ''log.xes'')])"
    by blast
  then show ?thesis
    unfolding c .
qed

text \<open>
  C8, as amended. The extension is checked on the cleaned path: when the cleaned path does
  not end in \<open>.xes\<close>, in any letter case, \<open>ConvertXESToCSV\<close> returns the invalid-extension
  error and has made no call on any file; when the path itself ends in \<open>.xes\<close>, so does the
  cleaned path, and the invalid-extension error is not returned.
\<close>

theorem extension_checked_on_cleaned_path:
  "(\<not> isValidXESFile (Clean XESFilePath) \<longrightarrow>
      ConvertXESToCSV env order1 order2 XESFilePath CSVFilePath =
        (Return (Some (ErrInvalidExtension (Clean XESFilePath))), []))
   \<and> (isValidXESFile XESFilePath \<longrightarrow>
        isValidXESFile (Clean XESFilePath)
        \<and> (\<forall>path. fst (ConvertXESToCSV env order1 order2 XESFilePath CSVFilePath) \<noteq>
              Return (Some (ErrInvalidExtension path))))
   \<and> (isValidXESFile XESFilePath \<longleftrightarrow> HasSuffix (ToLower XESFilePath) ''.xes'')"
proof (intro conjI impI allI)
  show "ConvertXESToCSV env order1 order2 XESFilePath CSVFilePath =
      (Return (Some (ErrInvalidExtension (Clean XESFilePath))), [])"
    if "\<not> isValidXESFile (Clean XESFilePath)"
    using that by (simp add: ConvertXESToCSV_def Let_def)
  show "isValidXESFile (Clean XESFilePath)" if "isValidXESFile XESFilePath"
    using that by (rule Clean_keeps_xes)
  show "fst (ConvertXESToCSV env order1 order2 XESFilePath CSVFilePath) \<noteq>
      Return (Some (ErrInvalidExtension path))"
    if "isValidXESFile XESFilePath" for path
    using Clean_keeps_xes [OF that]
    by (auto simp: ConvertXESToCSV_def Let_def dest: writeXESToCSV_ret_cases
        split: option.splits if_splits prod.splits)
  show "isValidXESFile XESFilePath \<longleftrightarrow> HasSuffix (ToLower XESFilePath) ''.xes''"
    by (simp add: isValidXESFile_def)
qed

theorem extension_checked_on_cleaned_path_witness:
  "ConvertXESToCSV noFileEnv (\<lambda>keyMap. []) (\<lambda>keyMap. []) ''foo.xml'' ''out.csv'' =
     (Return (Some (ErrInvalidExtension ''foo.xml'')), [])
   \<and> isValidXESFile ''./Log.XES''
   \<and> isValidXESFile (Clean ''./Log.XES'')
   \<and> fst (ConvertXESToCSV noFileEnv (\<lambda>keyMap. []) (\<lambda>keyMap. []) ''./Log.XES'' ''out.csv'') \<noteq>
       Return (Some (ErrInvalidExtension ''Log.XES''))"
proof -
  have c: "Clean ''foo.xml'' = ''foo.xml''"
    by (simp add: Clean_def)
  have no: "\<not> isValidXESFile (Clean ''foo.xml'')"
    unfolding c by (simp add: path_defs)
  have yes: "isValidXESFile ''./Log.XES''"
    by (simp add: path_defs)
  from extension_checked_on_cleaned_path
    [of "''foo.xml''" noFileEnv "\<lambda>keyMap. []" "\<lambda>keyMap. []" "''out.csv''"] no
  have "ConvertXESToCSV noFileEnv (\<lambda>keyMap. []) (\<lambda>keyMap. []) ''foo.xml'' ''out.csv'' =
     (Return (Some (ErrInvalidExtension (Clean ''foo.xml''))), [])"
    by blast
  moreover from extension_checked_on_cleaned_path
    [of "''./Log.XES''" noFileEnv "\<lambda>keyMap. []" "\<lambda>keyMap. []" "''out.csv''"] yes
  have "isValidXESFile (Clean ''./Log.XES'')
    \<and> fst (ConvertXESToCSV noFileEnv (\<lambda>keyMap. []) (\<lambda>keyMap. []) ''./Log.XES'' ''out.csv'') \<noteq>
       Return (Some (ErrInvalidExtension ''Log.XES''))"
    by blast
  ultimately show ?thesis
    using yes unfolding c by simp
qed

text \<open>
  C8 as stated fails: \<open>foo.xes/\<close> does not end in \<open>.xes\<close>, its cleaned form \<open>foo.xes\<close> does,
  so the file is opened, and the conversion succeeds when the environment allows it.
\<close>

theorem trailing_separator_passes_extension_check:
  "\<not> HasSuffix (ToLower ''foo.xes/'') ''.xes''
   \<and> ConvertXESToCSV noFileEnv (\<lambda>keyMap. []) (\<lambda>keyMap. []) ''foo.xes/'' ''out.csv'' =
       (Return (Some ErrOpen), [OsOpen ''foo.xes''])
   \<and> fst (ConvertXESToCSV (okEnv scenarioLog)
        (\<lambda>keyMap. [''case:concept:name'', ''activity'', ''timestamp''])
        (\<lambda>keyMap. [''case:concept:name'', ''activity'', ''timestamp''])
        ''foo.xes/'' ''out.csv'') = Return None"
proof -
  have c: "Clean ''foo.xes/'' = ''foo.xes''" "Clean ''out.csv'' = ''out.csv''"
    by (simp_all add: Clean_def)
  have v: "isValidXESFile ''foo.xes''"
    by (simp add: path_defs)
  have "\<not> HasSuffix (ToLower ''foo.xes/'') ''.xes''"
    by (simp add: path_defs)
  moreover have "ConvertXESToCSV noFileEnv (\<lambda>keyMap. []) (\<lambda>keyMap. []) ''foo.xes/'' ''out.csv'' =
       (Return (Some ErrOpen), [OsOpen ''foo.xes''])"
    by (simp add: ConvertXESToCSV_def Let_def c v noFileEnv_def)
  moreover have "fst (ConvertXESToCSV (okEnv scenarioLog)
        (\<lambda>keyMap. [''case:concept:name'', ''activity'', ''timestamp''])
        (\<lambda>keyMap. [''case:concept:name'', ''activity'', ''timestamp''])
        ''foo.xes/'' ''out.csv'') = Return None"
    by (simp add: ConvertXESToCSV_def c v okEnv_def writeXESToCSV_def collectHeader_def eval_defs)
  ultimately show ?thesis
    by simp
qed

end
